theory Spec2Isabelle
  imports Main
begin

section \<open>Python values used by the template\<close>

text \<open>
  A \<open>datetime\<close> is modelled by its position on the time line (an integer number of
  microseconds); only equality and order of timestamps are used by the service.
\<close>

type_synonym datetime = int

text \<open>
  A Python \<open>dict\<close> keeps its entries in insertion order: assigning to a key that is
  present replaces the value where it stands, assigning to an absent key appends the entry,
  and \<open>del\<close> takes the entry out and leaves the order of the others alone. The key of an
  entry occurs once. The model is an association list read from the front.
\<close>

type_synonym ('k, 'v) dict = "('k \<times> 'v) list"

fun dict_contains :: "('k, 'v) dict \<Rightarrow> 'k \<Rightarrow> bool" where
  "dict_contains [] k = False"
| "dict_contains ((k', v) # d) k = (if k' = k then True else dict_contains d k)"

fun dict_get :: "('k, 'v) dict \<Rightarrow> 'k \<Rightarrow> 'v option" where
  "dict_get [] k = None"
| "dict_get ((k', v) # d) k = (if k' = k then Some v else dict_get d k)"

fun dict_set :: "('k, 'v) dict \<Rightarrow> 'k \<Rightarrow> 'v \<Rightarrow> ('k, 'v) dict" where
  "dict_set [] k v = [(k, v)]"
| "dict_set ((k', v') # d) k v = (if k' = k then (k, v) # d else (k', v') # dict_set d k v)"

text \<open>\<open>d[k]\<close> raises \<open>KeyError\<close> on an absent key.\<close>

datatype error = ValidationError | KeyError

fun dict_getitem :: "('k, 'v) dict \<Rightarrow> 'k \<Rightarrow> error + 'v" where
  "dict_getitem [] k = Inl KeyError"
| "dict_getitem ((k', v) # d) k = (if k' = k then Inr v else dict_getitem d k)"

text \<open>
  \<open>del d[k]\<close> raises \<open>KeyError\<close> on an absent key; the service calls it only under
  the guard \<open>k in d\<close>, so the model gives the dictionary without the key.
\<close>

fun dict_del :: "('k, 'v) dict \<Rightarrow> 'k \<Rightarrow> ('k, 'v) dict" where
  "dict_del [] k = []"
| "dict_del ((k', v) # d) k = (if k' = k then dict_del d k else (k', v) # dict_del d k)"

definition dict_keys :: "('k, 'v) dict \<Rightarrow> 'k list" where
  "dict_keys d = map fst d"

definition dict_values :: "('k, 'v) dict \<Rightarrow> 'v list" where
  "dict_values d = map snd d"

fun py_all :: "bool list \<Rightarrow> bool" where
  "py_all [] = True"
| "py_all (b # bs) = (if b then py_all bs else False)"


section \<open>Schemas (src/models/schemas.py)\<close>

record ItemBase =
  name :: string
  description :: "string option"
  tags :: "string list"

type_synonym ItemCreate = ItemBase

record Item = ItemBase +
  id' :: string
  created_at :: datetime
  updated_at :: "datetime option"

text \<open>
  The field constraints of \<open>ItemBase\<close>: \<open>name\<close> has between 1 and 100 characters and
  a \<open>description\<close> that is given has at most 500.
\<close>

definition valid_ItemBase :: "string \<Rightarrow> string option \<Rightarrow> bool" where
  "valid_ItemBase n d =
     (1 \<le> length n \<and> length n \<le> 100 \<and>
      (case d of None \<Rightarrow> True | Some x \<Rightarrow> length x \<le> 500))"

definition valid_ItemCreate :: "ItemCreate \<Rightarrow> bool" where
  "valid_ItemCreate p = valid_ItemBase (name p) (description p)"

text \<open>
  Constructing an \<open>Item\<close> runs the validation of its fields and raises when a constraint
  of \<open>ItemBase\<close> is broken.
\<close>

definition Item_init ::
  "string \<Rightarrow> string \<Rightarrow> string option \<Rightarrow> string list \<Rightarrow> datetime \<Rightarrow> datetime option
     \<Rightarrow> error + Item" where
  "Item_init i n d t c u =
     (if valid_ItemBase n d
      then Inr \<lparr>name = n, description = d, tags = t, id' = i, created_at = c, updated_at = u\<rparr>
      else Inl ValidationError)"

record ItemList =
  items :: "Item list"
  total :: int


section \<open>The service (src/services/example.py)\<close>

text \<open>
  The state of an \<open>ExampleService\<close> is its dictionary \<open>_items\<close>. Every method takes the
  state and returns its result together with the state it leaves. The values the methods
  draw from the environment are arguments: \<open>uuid4\<close> is the string that
  \<open>str(uuid.uuid4())\<close> produced and \<open>utcnow\<close> the reading of \<open>datetime.utcnow()\<close>.
  The log lines are not part of the state.
\<close>

type_synonym ExampleService = "(string, Item) dict"

definition init :: ExampleService where
  "init = []"

definition list_items :: "ExampleService \<Rightarrow> Item list \<times> ExampleService" where
  "list_items self = (dict_values self, self)"

definition get_item :: "ExampleService \<Rightarrow> string \<Rightarrow> Item option \<times> ExampleService" where
  "get_item self item_id = (dict_get self item_id, self)"

definition create_item ::
  "ExampleService \<Rightarrow> ItemCreate \<Rightarrow> string \<Rightarrow> datetime \<Rightarrow> (error + Item) \<times> ExampleService" where
  "create_item self item_create uuid4 utcnow =
     (let item_id = uuid4;
          now = utcnow
      in case Item_init item_id (name item_create) (description item_create)
                (tags item_create) now None of
           Inl e \<Rightarrow> (Inl e, self)
         | Inr item \<Rightarrow> (Inr item, dict_set self item_id item))"

definition update_item ::
  "ExampleService \<Rightarrow> string \<Rightarrow> ItemCreate \<Rightarrow> datetime
     \<Rightarrow> (error + Item option) \<times> ExampleService" where
  "update_item self item_id item_update utcnow =
     (if \<not> dict_contains self item_id then (Inr None, self)
      else case dict_getitem self item_id of
             Inl e \<Rightarrow> (Inl e, self)
           | Inr existing \<Rightarrow>
               (case Item_init item_id (name item_update) (description item_update)
                       (tags item_update) (created_at existing) (Some utcnow) of
                  Inl e \<Rightarrow> (Inl e, self)
                | Inr updated \<Rightarrow> (Inr (Some updated), dict_set self item_id updated)))"

definition delete_item :: "ExampleService \<Rightarrow> string \<Rightarrow> bool \<times> ExampleService" where
  "delete_item self item_id =
     (if dict_contains self item_id then (True, dict_del self item_id)
      else (False, self))"


section \<open>The routes (src/api/routes.py)\<close>

text \<open>
  A handler either returns a body, sent with the status code of its route (200 where the
  decorator names none), or raises an \<open>HTTPException\<close>. The handlers work on the one
  \<open>service\<close> object of the module, which is threaded through here.
\<close>

datatype 'a response =
  Response (status_code: nat) (body: 'a)
| HTTPException (status_code: nat) (detail: string)

definition routes_list_items :: "ExampleService \<Rightarrow> ItemList response \<times> ExampleService" where
  "routes_list_items service =
     (let (items, service') = list_items service
      in (Response 200 \<lparr>items = items, total = int (length items)\<rparr>, service'))"

definition routes_get_item :: "ExampleService \<Rightarrow> string \<Rightarrow> Item response \<times> ExampleService" where
  "routes_get_item service item_id =
     (let (item, service') = get_item service item_id
      in case item of
           None \<Rightarrow> (HTTPException 404 ''Item not found'', service')
         | Some i \<Rightarrow> (Response 200 i, service'))"

definition routes_delete_item :: "ExampleService \<Rightarrow> string \<Rightarrow> unit response \<times> ExampleService" where
  "routes_delete_item service item_id =
     (let (deleted, service') = delete_item service item_id
      in if \<not> deleted then (HTTPException 404 ''Item not found'', service')
         else (Response 204 (), service'))"


section \<open>The health endpoints (src/api/health.py)\<close>

record HealthResponse =
  status :: string
  timestamp :: string
  version :: string

record ReadinessResponse =
  ready :: bool
  checks :: "(string, bool) dict"

text \<open>\<open>isoformat\<close> is the string \<open>datetime.utcnow().isoformat()\<close> produced.\<close>

definition health_check :: "string \<Rightarrow> HealthResponse response" where
  "health_check isoformat =
     Response 200 \<lparr>status = ''healthy'', timestamp = isoformat, version = ''0.1.0''\<rparr>"

definition readiness_check :: "ReadinessResponse response" where
  "readiness_check =
     (let checks = [(''api'', True)]
      in Response 200 \<lparr>ready = py_all (dict_values checks), checks = checks\<rparr>)"

definition liveness_check :: "(string, string) dict response" where
  "liveness_check = Response 200 [(''status'', ''alive'')]"


section \<open>Runs of the service\<close>

text \<open>
  A run is a sequence of calls on one service object, each call with the values it draws
  from the environment. The trace of a run pairs every call with what it returned.
\<close>

datatype op =
  ListItems
| GetItem string
| CreateItem ItemCreate string datetime
| UpdateItem string ItemCreate datetime
| DeleteItem string

datatype result =
  Listed "Item list"
| Got "Item option"
| Created "error + Item"
| Updated "error + Item option"
| Deleted bool

fun exec_op :: "ExampleService \<Rightarrow> op \<Rightarrow> result \<times> ExampleService" where
  "exec_op s ListItems = (let (r, s') = list_items s in (Listed r, s'))"
| "exec_op s (GetItem k) = (let (r, s') = get_item s k in (Got r, s'))"
| "exec_op s (CreateItem p u t) = (let (r, s') = create_item s p u t in (Created r, s'))"
| "exec_op s (UpdateItem k p t) = (let (r, s') = update_item s k p t in (Updated r, s'))"
| "exec_op s (DeleteItem k) = (let (r, s') = delete_item s k in (Deleted r, s'))"

fun run :: "ExampleService \<Rightarrow> op list \<Rightarrow> (op \<times> result) list \<times> ExampleService" where
  "run s [] = ([], s)"
| "run s (c # cs) =
     (let (r, s') = exec_op s c;
          (tr, s'') = run s' cs
      in ((c, r) # tr, s''))"


section \<open>What a trace records\<close>

text \<open>
  The notions below are read off a trace; the claims about runs are stated with them.
  \<open>count_created\<close> counts the \<open>create_item\<close> calls that returned an item and
  \<open>count_deleted\<close> the \<open>delete_item\<close> calls that returned true.
\<close>

fun created :: "op \<times> result \<Rightarrow> bool" where
  "created (CreateItem p u t, Created (Inr i)) = True"
| "created e = False"

fun deleted :: "op \<times> result \<Rightarrow> bool" where
  "deleted (DeleteItem k, Deleted True) = True"
| "deleted e = False"

definition count_created :: "(op \<times> result) list \<Rightarrow> nat" where
  "count_created tr = length (filter created tr)"

definition count_deleted :: "(op \<times> result) list \<Rightarrow> nat" where
  "count_deleted tr = length (filter deleted tr)"

text \<open>
  \<open>fresh_ids s cs\<close>: in the run of \<open>cs\<close> from \<open>s\<close>, the identifier generated
  for a \<open>create_item\<close> call is never a key of the store at the moment of the call.
\<close>

fun fresh_ids :: "ExampleService \<Rightarrow> op list \<Rightarrow> bool" where
  "fresh_ids s [] = True"
| "fresh_ids s (CreateItem p u t # cs) =
     (\<not> dict_contains s u \<and> fresh_ids (snd (exec_op s (CreateItem p u t))) cs)"
| "fresh_ids s (c # cs) = fresh_ids (snd (exec_op s c)) cs"

text \<open>
  \<open>insertion_order ks tr\<close>: the keys in the order in which they were inserted, starting
  from the order \<open>ks\<close>. A \<open>create_item\<close> that returned an item inserts its key at the
  end unless the key is there already, a \<open>delete_item\<close> that returned true takes its
  key out, and no other call touches the order (\<open>order_after\<close> is the effect of one
  call).
\<close>

fun order_after :: "string list \<Rightarrow> op \<times> result \<Rightarrow> string list" where
  "order_after ks (CreateItem p u t, Created (Inr i)) = (if u \<in> set ks then ks else ks @ [u])"
| "order_after ks (DeleteItem k, Deleted True) = filter (\<lambda>x. x \<noteq> k) ks"
| "order_after ks e = ks"

fun insertion_order :: "string list \<Rightarrow> (op \<times> result) list \<Rightarrow> string list" where
  "insertion_order ks [] = ks"
| "insertion_order ks (e # tr) = insertion_order (order_after ks e) tr"

text \<open>
  \<open>updated_since_created k b tr\<close>: whether the item stored under \<open>k\<close> has been the
  target of an \<open>update_item\<close> call that returned an item since the \<open>create_item\<close>
  call that stored it; \<open>b\<close> is the answer before the trace and \<open>flag_after\<close> the
  effect of one call.
\<close>

fun flag_after :: "string \<Rightarrow> bool \<Rightarrow> op \<times> result \<Rightarrow> bool" where
  "flag_after k b (CreateItem p u t, Created (Inr i)) = (if u = k then False else b)"
| "flag_after k b (UpdateItem k' p t, Updated (Inr (Some i))) = (if k' = k then True else b)"
| "flag_after k b e = b"

fun updated_since_created :: "string \<Rightarrow> bool \<Rightarrow> (op \<times> result) list \<Rightarrow> bool" where
  "updated_since_created k b [] = b"
| "updated_since_created k b (e # tr) = updated_since_created k (flag_after k b e) tr"

text \<open>\<open>clock_readings cs\<close>: the clock values at the calls that carry one, in order.\<close>

fun clock_readings :: "op list \<Rightarrow> datetime list" where
  "clock_readings [] = []"
| "clock_readings (CreateItem p u t # cs) = t # clock_readings cs"
| "clock_readings (UpdateItem k p t # cs) = t # clock_readings cs"
| "clock_readings (c # cs) = clock_readings cs"

text \<open>The invariants of the store that the proofs carry along a run.\<close>

definition keyed_by_id :: "ExampleService \<Rightarrow> bool" where
  "keyed_by_id s = (\<forall>(k, i) \<in> set s. id' i = k)"

definition stamps_le :: "ExampleService \<Rightarrow> datetime \<Rightarrow> bool" where
  "stamps_le s b =
     (\<forall>(k, i) \<in> set s. created_at i \<le> b \<and> (\<forall>t. updated_at i = Some t \<longrightarrow> t \<le> b))"

text \<open>The payload of the end-to-end scenario of the specification.\<close>

definition test_item :: ItemCreate where
  "test_item = \<lparr>name = ''Test Item'', description = Some ''A test item'',
                 tags = [''test'', ''example'']\<rparr>"

text \<open>
  \<open>new_item p i c u\<close> is the \<open>Item\<close> with the fields of the payload \<open>p\<close>, the
  identifier \<open>i\<close> and the two timestamps: the value that \<open>create_item\<close> and
  \<open>update_item\<close> build when the payload passes validation.
\<close>

definition new_item :: "ItemCreate \<Rightarrow> string \<Rightarrow> datetime \<Rightarrow> datetime option \<Rightarrow> Item" where
  "new_item p i c u =
     \<lparr>name = name p, description = description p, tags = tags p,
      id' = i, created_at = c, updated_at = u\<rparr>"


section \<open>Facts about dictionaries\<close>

lemma dict_contains_keys: "dict_contains d k = (k \<in> set (dict_keys d))"
  by (induction d) (auto simp: dict_keys_def split: if_splits)

lemma dict_contains_get: "dict_contains d k = (dict_get d k \<noteq> None)"
  by (induction d) (auto split: if_splits)

lemma dict_getitem_get: "dict_getitem d k = (case dict_get d k of None \<Rightarrow> Inl KeyError | Some v \<Rightarrow> Inr v)"
  by (induction d) (auto split: if_splits)

lemma dict_get_set: "dict_get (dict_set d k v) k' = (if k' = k then Some v else dict_get d k')"
  by (induction d) (auto split: if_splits)

lemma dict_get_del: "dict_get (dict_del d k) k' = (if k' = k then None else dict_get d k')"
  by (induction d) (auto split: if_splits)

lemma dict_keys_set:
  "dict_keys (dict_set d k v) = (if dict_contains d k then dict_keys d else dict_keys d @ [k])"
  by (induction d) (auto simp: dict_keys_def split: if_splits)

lemma dict_keys_del: "dict_keys (dict_del d k) = filter (\<lambda>x. x \<noteq> k) (dict_keys d)"
  by (induction d) (auto simp: dict_keys_def split: if_splits)

lemma dict_del_absent: "\<not> dict_contains d k \<Longrightarrow> dict_del d k = d"
  by (induction d) (auto split: if_splits)

lemma length_dict_set:
  "length (dict_set d k v) = (if dict_contains d k then length d else Suc (length d))"
  by (induction d) (auto split: if_splits)

lemma dict_contains_fst: "dict_contains d k = (k \<in> fst ` set d)"
  by (induction d) (auto split: if_splits)

lemma length_dict_del:
  "distinct (dict_keys d) \<Longrightarrow> dict_contains d k \<Longrightarrow> Suc (length (dict_del d k)) = length d"
proof (induction d)
  case Nil
  then show ?case by simp
next
  case (Cons e d)
  obtain k' v where e: "e = (k', v)" by (cases e)
  show ?case
  proof (cases "k' = k")
    case True
    with Cons.prems e have "\<not> dict_contains d k"
      by (simp add: dict_keys_def dict_contains_fst)
    then show ?thesis using True e by (simp add: dict_del_absent)
  next
    case False
    with Cons e show ?thesis by (simp add: dict_keys_def)
  qed
qed

lemma set_dict_set: "set (dict_set d k v) \<subseteq> insert (k, v) (set d)"
  by (induction d) (auto split: if_splits)

lemma set_dict_del: "set (dict_del d k) \<subseteq> set d"
  by (induction d) (auto split: if_splits)

lemma dict_set_absent: "\<not> dict_contains d k \<Longrightarrow> dict_set d k v = d @ [(k, v)]"
  by (induction d) (auto split: if_splits)

lemma dict_del_filter: "dict_del d k = filter (\<lambda>e. fst e \<noteq> k) d"
  by (induction d) (auto split: if_splits)



section \<open>The methods, case by case\<close>

lemma create_item_valid:
  "valid_ItemCreate p \<Longrightarrow>
     create_item s p u t = (Inr (new_item p u t None), dict_set s u (new_item p u t None))"
  by (simp add: create_item_def Item_init_def valid_ItemCreate_def new_item_def)

lemma create_item_invalid:
  "\<not> valid_ItemCreate p \<Longrightarrow> create_item s p u t = (Inl ValidationError, s)"
  by (simp add: create_item_def Item_init_def valid_ItemCreate_def)

lemma update_item_absent:
  "\<not> dict_contains s k \<Longrightarrow> update_item s k p t = (Inr None, s)"
  by (simp add: update_item_def)

lemma update_item_valid:
  "valid_ItemCreate p \<Longrightarrow> dict_get s k = Some e \<Longrightarrow>
     update_item s k p t =
       (Inr (Some (new_item p k (created_at e) (Some t))),
        dict_set s k (new_item p k (created_at e) (Some t)))"
  by (simp add: update_item_def Item_init_def valid_ItemCreate_def new_item_def
        dict_contains_get dict_getitem_get)

lemma update_item_invalid:
  "\<not> valid_ItemCreate p \<Longrightarrow> dict_contains s k \<Longrightarrow>
     update_item s k p t = (Inl ValidationError, s)"
  by (simp add: update_item_def Item_init_def valid_ItemCreate_def
        dict_contains_get dict_getitem_get split: option.splits)

lemma update_item_cases:
  obtains (absent) "\<not> dict_contains s k" "update_item s k p t = (Inr None, s)"
  | (invalid) "dict_contains s k" "update_item s k p t = (Inl ValidationError, s)"
  | (stored) e where "dict_get s k = Some e" "valid_ItemCreate p"
      "update_item s k p t =
         (Inr (Some (new_item p k (created_at e) (Some t))),
          dict_set s k (new_item p k (created_at e) (Some t)))"
proof (cases "dict_contains s k")
  case False
  then show ?thesis using absent update_item_absent by blast
next
  case True
  then obtain e where e: "dict_get s k = Some e"
    by (auto simp: dict_contains_get)
  show ?thesis
  proof (cases "valid_ItemCreate p")
    case True
    then show ?thesis using stored e update_item_valid by blast
  next
    case False
    then show ?thesis using invalid \<open>dict_contains s k\<close> update_item_invalid by blast
  qed
qed

lemma delete_item_present:
  "dict_contains s k \<Longrightarrow> delete_item s k = (True, dict_del s k)"
  by (simp add: delete_item_def)

lemma delete_item_absent:
  "\<not> dict_contains s k \<Longrightarrow> delete_item s k = (False, s)"
  by (simp add: delete_item_def)



section \<open>Claims about single calls\<close>

text \<open>
  C9. \<open>get_item\<close> and \<open>list_items\<close> leave the store as it was, whether the key
  looked up is present or not; so do the two routes built on them.
\<close>

theorem C9_reads_leave_store:
  "snd (get_item s k) = s \<and> snd (list_items s) = s \<and>
   snd (routes_get_item s k) = s \<and> snd (routes_list_items s) = s"
  by (simp add: get_item_def list_items_def routes_get_item_def routes_list_items_def
        split: option.splits)

text \<open>
  C1. For a valid payload \<open>p\<close> and any store, \<open>create_item\<close> returns an item \<open>i\<close>
  with the name, description and tags of \<open>p\<close>, the generated identifier, the clock reading
  as \<open>created_at\<close> and no \<open>updated_at\<close>; \<open>get_item\<close> on the resulting store with the
  identifier of \<open>i\<close> returns exactly \<open>i\<close>.
\<close>

theorem C1_create_then_get:
  assumes "valid_ItemCreate p"
  shows "\<exists>i. create_item s p u t = (Inr i, dict_set s u i) \<and>
             name i = name p \<and> description i = description p \<and> tags i = tags p \<and>
             id' i = u \<and> created_at i = t \<and> updated_at i = None \<and>
             get_item (snd (create_item s p u t)) (id' i) = (Some i, snd (create_item s p u t))"
proof -
  let ?i = "new_item p u t None"
  have c: "create_item s p u t = (Inr ?i, dict_set s u ?i)"
    using assms by (rule create_item_valid)
  have g: "get_item (dict_set s u ?i) (id' ?i) = (Some ?i, dict_set s u ?i)"
    by (simp add: get_item_def dict_get_set new_item_def)
  have f: "name ?i = name p \<and> description ?i = description p \<and> tags ?i = tags p \<and>
           id' ?i = u \<and> created_at ?i = t \<and> updated_at ?i = None"
    by (simp add: new_item_def)
  from c g f show ?thesis by auto
qed

theorem C1_create_then_get_witness:
  "valid_ItemCreate test_item \<and>
   fst (create_item init test_item ''a'' 0) = Inr (new_item test_item ''a'' 0 None) \<and>
   fst (get_item (snd (create_item init test_item ''a'' 0)) ''a'')
     = Some (new_item test_item ''a'' 0 None)"
proof -
  have v: "valid_ItemCreate test_item"
    by (simp add: valid_ItemCreate_def valid_ItemBase_def test_item_def)
  from C1_create_then_get [OF v, of init "''a''" 0] v show ?thesis
    by (auto simp: new_item_def)
qed

text \<open>
  C3. \<open>delete_item\<close> returns true exactly when the key is present. When it is, the entry
  is removed, a following \<open>get_item\<close> finds nothing, the other keys keep their items and
  the route answers 204 with an empty body. When it is not, the result is false, the store
  is the one before and the route answers 404. Deleting the same key again returns false and
  leaves the store alone.
\<close>

theorem C3_delete_item:
  "fst (delete_item s k) = dict_contains s k \<and>
   (dict_contains s k \<longrightarrow>
      snd (delete_item s k) = dict_del s k \<and>
      \<not> dict_contains (snd (delete_item s k)) k \<and>
      fst (get_item (snd (delete_item s k)) k) = None \<and>
      (\<forall>k'. k' \<noteq> k \<longrightarrow> dict_get (snd (delete_item s k)) k' = dict_get s k') \<and>
      fst (routes_delete_item s k) = Response 204 ()) \<and>
   (\<not> dict_contains s k \<longrightarrow>
      delete_item s k = (False, s) \<and>
      routes_delete_item s k = (HTTPException 404 ''Item not found'', s)) \<and>
   delete_item (snd (delete_item s k)) k = (False, snd (delete_item s k)) \<and>
   snd (routes_delete_item s k) = snd (delete_item s k)"
  by (simp add: delete_item_def routes_delete_item_def get_item_def dict_contains_get dict_get_del)

theorem C3_delete_item_witness:
  "dict_contains [(''a'', new_item test_item ''a'' 0 None)] ''a'' \<and>
   delete_item [(''a'', new_item test_item ''a'' 0 None)] ''a'' = (True, []) \<and>
   fst (routes_delete_item [(''a'', new_item test_item ''a'' 0 None)] ''a'') = Response 204 () \<and>
   \<not> dict_contains init ''a'' \<and>
   routes_delete_item init ''a'' = (HTTPException 404 ''Item not found'', init)"
  using C3_delete_item [of "[(''a'', new_item test_item ''a'' 0 None)]" "''a''"]
    C3_delete_item [of init "''a''"]
  by (simp add: init_def prod_eq_iff)

text \<open>
  C7. \<open>/health\<close> answers 200 with status \<open>healthy\<close>, \<open>/live\<close> answers 200 with status
  \<open>alive\<close>, and \<open>/ready\<close> reports \<open>ready\<close> exactly when every entry of its \<open>checks\<close>
  is true, the checks being the one entry \<open>api\<close>, which is true.
\<close>

theorem C7_health:
  "status_code (health_check ts) = 200 \<and> status (body (health_check ts)) = ''healthy'' \<and>
   status_code liveness_check = 200 \<and> dict_get (body liveness_check) ''status'' = Some ''alive'' \<and>
   status_code readiness_check = 200 \<and>
   checks (body readiness_check) = [(''api'', True)] \<and>
   ready (body readiness_check)
     = (\<forall>b \<in> set (dict_values (checks (body readiness_check))). b)"
  by (simp add: health_check_def liveness_check_def readiness_check_def dict_values_def)

theorem C7_health_witness:
  "ready (body readiness_check) \<and> status (body (health_check ''2026-01-01T00:00:00'')) = ''healthy''"
  using C7_health [of "''2026-01-01T00:00:00''"]
  by (simp add: readiness_check_def dict_values_def)

text \<open>
  C10. \<open>create_item\<close> makes no collision check: for a valid payload it stores the new item
  under the generated key whatever the store holds. When the key is present already, the
  item under it is replaced by the new one, the keys and their number stay as they were and
  \<open>list_items\<close> is no longer than before.
\<close>

theorem C10_no_collision_check:
  assumes "valid_ItemCreate p"
  shows "\<exists>i. create_item s p u t = (Inr i, dict_set s u i) \<and> id' i = u \<and>
             dict_get (dict_set s u i) u = Some i \<and>
             (\<forall>k. k \<noteq> u \<longrightarrow> dict_get (dict_set s u i) k = dict_get s k) \<and>
             (dict_contains s u \<longrightarrow>
                length (dict_set s u i) = length s \<and>
                dict_keys (dict_set s u i) = dict_keys s \<and>
                length (fst (list_items (dict_set s u i))) = length (fst (list_items s)))"
proof -
  let ?i = "new_item p u t None"
  have c: "create_item s p u t = (Inr ?i, dict_set s u ?i)"
    using assms by (rule create_item_valid)
  have "id' ?i = u" by (simp add: new_item_def)
  with c show ?thesis
    by (auto simp: dict_get_set length_dict_set dict_keys_set list_items_def dict_values_def)
qed

theorem C10_no_collision_check_witness:
  "valid_ItemCreate test_item \<and>
   dict_contains [(''a'', new_item test_item ''a'' 0 None)] ''a'' \<and>
   create_item [(''a'', new_item test_item ''a'' 0 None)] test_item ''a'' 5
     = (Inr (new_item test_item ''a'' 5 None), [(''a'', new_item test_item ''a'' 5 None)])"
proof -
  have v: "valid_ItemCreate test_item"
    by (simp add: valid_ItemCreate_def valid_ItemBase_def test_item_def)
  have c: "create_item [(''a'', new_item test_item ''a'' 0 None)] test_item ''a'' 5
     = (Inr (new_item test_item ''a'' 5 None), [(''a'', new_item test_item ''a'' 5 None)])"
    by (simp add: create_item_valid [OF v])
  from C10_no_collision_check [OF v, of "[(''a'', new_item test_item ''a'' 0 None)]" "''a''" 5] v c
  show ?thesis
    by simp
qed


section \<open>Facts about runs\<close>

lemma valid_test_item: "valid_ItemCreate test_item"
  by (simp add: valid_ItemCreate_def valid_ItemBase_def test_item_def)

lemma run_Cons:
  "run s (c # cs) =
     ((c, fst (exec_op s c)) # fst (run (snd (exec_op s c)) cs),
      snd (run (snd (exec_op s c)) cs))"
  by (simp add: split_beta)

lemma exec_op_create_valid:
  "valid_ItemCreate p \<Longrightarrow>
     exec_op s (CreateItem p u t) =
       (Created (Inr (new_item p u t None)), dict_set s u (new_item p u t None))"
  by (simp add: create_item_valid)

lemma exec_op_create_invalid:
  "\<not> valid_ItemCreate p \<Longrightarrow> exec_op s (CreateItem p u t) = (Created (Inl ValidationError), s)"
  by (simp add: create_item_invalid)

lemma exec_op_delete:
  "exec_op s (DeleteItem k) = (Deleted (dict_contains s k), dict_del s k)"
  by (simp add: delete_item_def dict_del_absent)

lemma exec_op_list: "exec_op s ListItems = (Listed (dict_values s), s)"
  by (simp add: list_items_def)

lemma exec_op_get: "exec_op s (GetItem k) = (Got (dict_get s k), s)"
  by (simp add: get_item_def)

lemma exec_op_update_cases:
  obtains (absent) "\<not> dict_contains s k" "exec_op s (UpdateItem k p t) = (Updated (Inr None), s)"
  | (invalid) "dict_contains s k" "exec_op s (UpdateItem k p t) = (Updated (Inl ValidationError), s)"
  | (stored) e where "dict_get s k = Some e" "valid_ItemCreate p"
      "exec_op s (UpdateItem k p t) =
         (Updated (Inr (Some (new_item p k (created_at e) (Some t)))),
          dict_set s k (new_item p k (created_at e) (Some t)))"
proof (cases rule: update_item_cases [of s k p t])
  case absent
  then show ?thesis using that(1) by simp
next
  case invalid
  then show ?thesis using that(2) by simp
next
  case (stored e)
  then show ?thesis using that(3) by simp
qed

lemma run_Nil: "run s [] = ([], s)"
  by simp

text \<open>
  From here on a call is unfolded by the lemmas above, one case of the method at a time.
\<close>

declare exec_op.simps [simp del]
declare run.simps [simp del]

text \<open>The store after one call, whatever the call.\<close>

lemma exec_op_store:
  "snd (exec_op s c) = s \<or>
   (\<exists>k. snd (exec_op s c) = dict_del s k) \<or>
   (\<exists>p u t. valid_ItemCreate p \<and> c = CreateItem p u t \<and>
        snd (exec_op s c) = dict_set s u (new_item p u t None)) \<or>
   (\<exists>p k t e. c = UpdateItem k p t \<and> dict_get s k = Some e \<and>
        snd (exec_op s c) = dict_set s k (new_item p k (created_at e) (Some t)))"
proof (cases c)
  case ListItems
  then show ?thesis by (simp add: exec_op_list)
next
  case (GetItem k)
  then show ?thesis by (simp add: exec_op_get)
next
  case (CreateItem p u t)
  then show ?thesis
    by (cases "valid_ItemCreate p") (simp_all add: exec_op_create_valid exec_op_create_invalid)
next
  case (UpdateItem k p t)
  show ?thesis
    by (cases rule: exec_op_update_cases [of s k p t]) (simp_all add: UpdateItem)
next
  case (DeleteItem k)
  then show ?thesis by (auto simp: exec_op_delete)
qed

lemma run_invariant:
  assumes "P s" and "\<And>s c. P s \<Longrightarrow> P (snd (exec_op s c))"
  shows "P (snd (run s cs))"
  using assms(1)
proof (induction cs arbitrary: s)
  case Nil
  then show ?case by (simp add: run_Nil)
next
  case (Cons c cs)
  from Cons.prems have "P (snd (exec_op s c))" by (rule assms(2))
  then have "P (snd (run (snd (exec_op s c)) cs))" by (rule Cons.IH)
  then show ?case by (simp add: run_Cons)
qed

subsection \<open>Keys are distinct and are the identifiers\<close>

lemma distinct_dict_set: "distinct (dict_keys d) \<Longrightarrow> distinct (dict_keys (dict_set d k v))"
  by (simp add: dict_keys_set dict_contains_keys)

lemma distinct_dict_del: "distinct (dict_keys d) \<Longrightarrow> distinct (dict_keys (dict_del d k))"
  by (simp add: dict_keys_del)

lemma distinct_exec_op: "distinct (dict_keys s) \<Longrightarrow> distinct (dict_keys (snd (exec_op s c)))"
  using exec_op_store [of s c] by (auto simp: distinct_dict_set distinct_dict_del)

lemma distinct_run: "distinct (dict_keys s) \<Longrightarrow> distinct (dict_keys (snd (run s cs)))"
  by (rule run_invariant) (simp_all add: distinct_exec_op)

lemma keyed_dict_set: "keyed_by_id s \<Longrightarrow> id' i = k \<Longrightarrow> keyed_by_id (dict_set s k i)"
  using set_dict_set [of s k i] by (auto simp: keyed_by_id_def)

lemma keyed_dict_del: "keyed_by_id s \<Longrightarrow> keyed_by_id (dict_del s k)"
  using set_dict_del [of s k] by (auto simp: keyed_by_id_def)

lemma keyed_exec_op: "keyed_by_id s \<Longrightarrow> keyed_by_id (snd (exec_op s c))"
  using exec_op_store [of s c]
  by (auto simp: keyed_dict_set keyed_dict_del new_item_def)

lemma keyed_run: "keyed_by_id s \<Longrightarrow> keyed_by_id (snd (run s cs))"
  by (rule run_invariant) (simp_all add: keyed_exec_op)

lemma keyed_init: "keyed_by_id init" "distinct (dict_keys init)"
  by (simp_all add: keyed_by_id_def init_def dict_keys_def)

lemma keyed_values_ids: "keyed_by_id s \<Longrightarrow> map id' (dict_values s) = dict_keys s"
  by (induction s) (auto simp: keyed_by_id_def dict_values_def dict_keys_def)

lemma dict_get_mem: "dict_get d k = Some v \<Longrightarrow> (k, v) \<in> set d"
  by (induction d) (auto split: if_splits)

lemma mem_dict_get: "distinct (dict_keys d) \<Longrightarrow> (k, v) \<in> set d \<Longrightarrow> dict_get d k = Some v"
  by (induction d) (auto simp: dict_keys_def rev_image_eqI split: if_splits)


lemma run_init_two:
  "run init [CreateItem test_item ''a'' 0, CreateItem test_item ''b'' 1] =
     ([(CreateItem test_item ''a'' 0, Created (Inr (new_item test_item ''a'' 0 None))),
       (CreateItem test_item ''b'' 1, Created (Inr (new_item test_item ''b'' 1 None)))],
      [(''a'', new_item test_item ''a'' 0 None), (''b'', new_item test_item ''b'' 1 None)])"
  by (simp add: run_Cons run_Nil exec_op_create_valid valid_test_item init_def)

text \<open>
  C5. In every store reached from the empty store by list, get, create, update and delete
  calls, every item is stored under its own identifier, whether looked up by key or read
  from the entries, so the identifiers of the listed items are the keys and are pairwise
  distinct. This holds for every run, and so for the runs in which the identifiers
  generated by \<open>create_item\<close> are fresh.
\<close>

theorem C5_ids_are_keys:
  "keyed_by_id (snd (run init cs)) \<and>
   (\<forall>k i. dict_get (snd (run init cs)) k = Some i \<longrightarrow> id' i = k) \<and>
   distinct (dict_keys (snd (run init cs))) \<and>
   map id' (fst (list_items (snd (run init cs)))) = dict_keys (snd (run init cs)) \<and>
   distinct (map id' (fst (list_items (snd (run init cs)))))"
proof -
  let ?s = "snd (run init cs)"
  have k: "keyed_by_id ?s" by (rule keyed_run) (rule keyed_init)
  have d: "distinct (dict_keys ?s)" by (rule distinct_run) (rule keyed_init)
  have g: "\<forall>k i. dict_get ?s k = Some i \<longrightarrow> id' i = k"
    using k by (auto simp: keyed_by_id_def dest: dict_get_mem)
  have m: "map id' (fst (list_items ?s)) = dict_keys ?s"
    using k by (simp add: list_items_def keyed_values_ids)
  from k d g m show ?thesis by simp
qed

theorem C5_ids_are_keys_witness:
  "keyed_by_id [(''a'', new_item test_item ''a'' 0 None), (''b'', new_item test_item ''b'' 1 None)] \<and>
   map id' (fst (list_items (snd (run init
      [CreateItem test_item ''a'' 0, CreateItem test_item ''b'' 1])))) = [''a'', ''b'']"
  using C5_ids_are_keys [of "[CreateItem test_item ''a'' 0, CreateItem test_item ''b'' 1]"]
  by (simp add: run_init_two dict_keys_def)


subsection \<open>The absence of updated_at\<close>

lemma updated_exec_op:
  assumes "\<forall>k i. dict_get s k = Some i \<longrightarrow> (updated_at i = None \<longleftrightarrow> \<not> f k)"
  shows "\<forall>k i. dict_get (snd (exec_op s c)) k = Some i \<longrightarrow>
           (updated_at i = None \<longleftrightarrow> \<not> flag_after k (f k) (c, fst (exec_op s c)))"
proof (cases c)
  case ListItems
  then show ?thesis using assms by (simp add: exec_op_list)
next
  case (GetItem k)
  then show ?thesis using assms by (simp add: exec_op_get)
next
  case (CreateItem p u t)
  show ?thesis
  proof (cases "valid_ItemCreate p")
    case True
    then show ?thesis using assms CreateItem
      by (auto simp: exec_op_create_valid dict_get_set new_item_def)
  next
    case False
    then show ?thesis using assms CreateItem by (simp add: exec_op_create_invalid)
  qed
next
  case (UpdateItem k p t)
  show ?thesis
  proof (cases rule: exec_op_update_cases [of s k p t])
    case absent
    then show ?thesis using assms UpdateItem by simp
  next
    case invalid
    then show ?thesis using assms UpdateItem by simp
  next
    case (stored e)
    then show ?thesis using assms UpdateItem
      by (auto simp: dict_get_set new_item_def)
  qed
next
  case (DeleteItem k)
  then show ?thesis using assms
    by (cases "dict_contains s k") (auto simp: exec_op_delete dict_get_del)
qed

lemma updated_run:
  assumes "\<forall>k i. dict_get s k = Some i \<longrightarrow> (updated_at i = None \<longleftrightarrow> \<not> f k)"
  shows "\<forall>k i. dict_get (snd (run s cs)) k = Some i \<longrightarrow>
           (updated_at i = None \<longleftrightarrow> \<not> updated_since_created k (f k) (fst (run s cs)))"
  using assms
proof (induction cs arbitrary: s f)
  case Nil
  then show ?case by (simp add: run_Nil)
next
  case (Cons c cs)
  let ?s = "snd (exec_op s c)"
  let ?f = "\<lambda>k. flag_after k (f k) (c, fst (exec_op s c))"
  have "\<forall>k i. dict_get ?s k = Some i \<longrightarrow> (updated_at i = None \<longleftrightarrow> \<not> ?f k)"
    using Cons.prems by (rule updated_exec_op)
  then have "\<forall>k i. dict_get (snd (run ?s cs)) k = Some i \<longrightarrow>
           (updated_at i = None \<longleftrightarrow> \<not> updated_since_created k (?f k) (fst (run ?s cs)))"
    by (rule Cons.IH)
  then show ?case by (simp add: run_Cons)
qed

text \<open>
  C8. In every store reached from the empty store, an item has no \<open>updated_at\<close> exactly
  when no \<open>update_item\<close> call has returned an item for its key since the
  \<open>create_item\<close> call that stored it. Call by call: an item that \<open>create_item\<close> returns
  is stored without \<open>updated_at\<close>, an item that \<open>update_item\<close> returns is stored with
  the clock reading as \<open>updated_at\<close>, both leave the items under the other keys alone,
  \<open>delete_item\<close> leaves the items of the other keys as they are, and \<open>get_item\<close> and
  \<open>list_items\<close> change nothing.
\<close>

theorem C8_updated_at_absent:
  "(\<forall>k i. dict_get (snd (run init cs)) k = Some i \<longrightarrow>
        (updated_at i = None \<longleftrightarrow> \<not> updated_since_created k False (fst (run init cs)))) \<and>
   (\<forall>i. fst (create_item s p u t) = Inr i \<longrightarrow>
        dict_get (snd (create_item s p u t)) u = Some i \<and> updated_at i = None) \<and>
   (\<forall>i. fst (update_item s k p t) = Inr (Some i) \<longrightarrow>
        dict_get (snd (update_item s k p t)) k = Some i \<and> updated_at i = Some t) \<and>
   (\<forall>k'. k' \<noteq> u \<longrightarrow> dict_get (snd (create_item s p u t)) k' = dict_get s k') \<and>
   (\<forall>k'. k' \<noteq> k \<longrightarrow> dict_get (snd (update_item s k p t)) k' = dict_get s k') \<and>
   (\<forall>k'. k' \<noteq> k \<longrightarrow> dict_get (snd (delete_item s k)) k' = dict_get s k') \<and>
   snd (get_item s k) = s \<and> snd (list_items s) = s"
proof -
  have "\<forall>k i. dict_get init k = Some i \<longrightarrow> (updated_at i = None \<longleftrightarrow> \<not> False)"
    by (simp add: init_def)
  then have r: "\<forall>k i. dict_get (snd (run init cs)) k = Some i \<longrightarrow>
        (updated_at i = None \<longleftrightarrow> \<not> updated_since_created k False (fst (run init cs)))"
    by (rule updated_run)
  have c: "\<forall>i. fst (create_item s p u t) = Inr i \<longrightarrow>
        dict_get (snd (create_item s p u t)) u = Some i \<and> updated_at i = None"
    by (cases "valid_ItemCreate p")
       (auto simp: create_item_valid create_item_invalid dict_get_set new_item_def)
  have up: "\<forall>i. fst (update_item s k p t) = Inr (Some i) \<longrightarrow>
        dict_get (snd (update_item s k p t)) k = Some i \<and> updated_at i = Some t"
    by (cases rule: update_item_cases [of s k p t]) (auto simp: dict_get_set new_item_def)
  have c': "\<forall>k'. k' \<noteq> u \<longrightarrow> dict_get (snd (create_item s p u t)) k' = dict_get s k'"
    by (cases "valid_ItemCreate p")
       (auto simp: create_item_valid create_item_invalid dict_get_set)
  have up': "\<forall>k'. k' \<noteq> k \<longrightarrow> dict_get (snd (update_item s k p t)) k' = dict_get s k'"
    by (cases rule: update_item_cases [of s k p t]) (auto simp: dict_get_set)
  have d: "\<forall>k'. k' \<noteq> k \<longrightarrow> dict_get (snd (delete_item s k)) k' = dict_get s k'"
    by (simp add: delete_item_def dict_get_del)
  have g: "snd (get_item s k) = s \<and> snd (list_items s) = s"
    by (simp add: get_item_def list_items_def)
  from r c up c' up' d g show ?thesis by blast
qed

lemma run_create_update:
  "run init [CreateItem test_item ''a'' 10, UpdateItem ''a'' test_item 20] =
     ([(CreateItem test_item ''a'' 10, Created (Inr (new_item test_item ''a'' 10 None))),
       (UpdateItem ''a'' test_item 20, Updated (Inr (Some (new_item test_item ''a'' 10 (Some 20)))))],
      [(''a'', new_item test_item ''a'' 10 (Some 20))])"
  by (simp add: run.simps exec_op.simps create_item_valid
        update_item_valid [where e = "new_item test_item ''a'' 10 None"]
        valid_test_item init_def new_item_def)

theorem C8_updated_at_absent_witness:
  "dict_get (snd (run init [CreateItem test_item ''a'' 10, UpdateItem ''a'' test_item 20])) ''a''
     = Some (new_item test_item ''a'' 10 (Some 20)) \<and>
   updated_since_created ''a'' False
     (fst (run init [CreateItem test_item ''a'' 10, UpdateItem ''a'' test_item 20])) \<and>
   fst (create_item [(''a'', new_item test_item ''a'' 10 None)] test_item ''b'' 20)
     = Inr (new_item test_item ''b'' 20 None) \<and>
   fst (update_item [(''a'', new_item test_item ''a'' 10 None)] ''a'' test_item 20)
     = Inr (Some (new_item test_item ''a'' 10 (Some 20)))"
  using C8_updated_at_absent [of "[CreateItem test_item ''a'' 10, UpdateItem ''a'' test_item 20]"
      "[(''a'', new_item test_item ''a'' 10 None)]" test_item "''b''" 20 "''a''"]
  by (simp add: run_create_update create_item_valid valid_test_item
        update_item_valid [where e = "new_item test_item ''a'' 10 None"] new_item_def)


subsection \<open>The order of the keys\<close>

lemma order_exec_op:
  "dict_keys (snd (exec_op s c)) = order_after (dict_keys s) (c, fst (exec_op s c))"
proof (cases c)
  case ListItems
  then show ?thesis by (simp add: exec_op_list)
next
  case (GetItem k)
  then show ?thesis by (simp add: exec_op_get)
next
  case (CreateItem p u t)
  then show ?thesis
    by (cases "valid_ItemCreate p")
       (simp_all add: exec_op_create_valid exec_op_create_invalid dict_keys_set dict_contains_keys)
next
  case (UpdateItem k p t)
  show ?thesis
  proof (cases rule: exec_op_update_cases [of s k p t])
    case absent
    then show ?thesis using UpdateItem by simp
  next
    case invalid
    then show ?thesis using UpdateItem by simp
  next
    case (stored e)
    then show ?thesis using UpdateItem by (simp add: dict_keys_set dict_contains_get)
  qed
next
  case (DeleteItem k)
  then show ?thesis
    by (cases "dict_contains s k") (simp_all add: exec_op_delete dict_keys_del dict_del_absent)
qed

lemma order_run: "dict_keys (snd (run s cs)) = insertion_order (dict_keys s) (fst (run s cs))"
proof (induction cs arbitrary: s)
  case Nil
  then show ?case by (simp add: run_Nil)
next
  case (Cons c cs)
  have "dict_keys (snd (run (snd (exec_op s c)) cs))
      = insertion_order (dict_keys (snd (exec_op s c))) (fst (run (snd (exec_op s c)) cs))"
    by (rule Cons.IH)
  then show ?case by (simp add: run_Cons order_exec_op)
qed

lemma dict_values_set:
  "distinct (dict_keys d) \<Longrightarrow> dict_contains d k \<Longrightarrow>
     dict_values (dict_set d k v) = map (\<lambda>(k', v'). if k' = k then v else v') d"
proof (induction d)
  case Nil
  then show ?case by simp
next
  case (Cons e d)
  obtain k' v' where e: "e = (k', v')" by (cases e)
  show ?case
  proof (cases "k' = k")
    case True
    with Cons.prems e have "k \<notin> fst ` set d" by (simp add: dict_keys_def)
    then have "map (\<lambda>(k', v'). if k' = k then v else v') d = map snd d"
      by (induction d) auto
    with True e show ?thesis by (simp add: dict_values_def)
  next
    case False
    with Cons e show ?thesis by (simp add: dict_values_def dict_keys_def)
  qed
qed

lemma keyed_values_set:
  assumes "keyed_by_id s" "distinct (dict_keys s)" "dict_contains s k"
  shows "dict_values (dict_set s k v) = map (\<lambda>i. if id' i = k then v else i) (dict_values s)"
proof -
  have "map (\<lambda>(k', v'). if k' = k then v else v') s
      = map (\<lambda>i. if id' i = k then v else i) (dict_values s)"
    using assms(1) by (induction s) (auto simp: keyed_by_id_def dict_values_def)
  with dict_values_set [OF assms(2,3)] show ?thesis by simp
qed

text \<open>
  C6. In every store reached from the empty store, \<open>list_items\<close> returns the stored
  items in the order in which their keys were inserted: the identifiers of the list are the
  \<open>insertion_order\<close> of the trace, no identifier occurs twice, and an item is in the list
  exactly when it is the item stored under its identifier. An \<open>update_item\<close> keeps every
  position: the list afterwards is the list before with the updated item in the place of
  the one it replaces. The list is a function of the store, so listing again gives the same
  list.
\<close>

theorem C6_list_in_insertion_order:
  "map id' (fst (list_items (snd (run init cs)))) = insertion_order [] (fst (run init cs)) \<and>
   distinct (map id' (fst (list_items (snd (run init cs))))) \<and>
   (\<forall>i. i \<in> set (fst (list_items (snd (run init cs))))
          \<longleftrightarrow> dict_get (snd (run init cs)) (id' i) = Some i) \<and>
   map id' (fst (list_items (snd (update_item (snd (run init cs)) k p t))))
     = map id' (fst (list_items (snd (run init cs)))) \<and>
   (\<forall>u. fst (update_item (snd (run init cs)) k p t) = Inr (Some u) \<longrightarrow>
      fst (list_items (snd (update_item (snd (run init cs)) k p t)))
        = map (\<lambda>i. if id' i = k then u else i) (fst (list_items (snd (run init cs))))) \<and>
   fst (list_items (snd (list_items (snd (run init cs))))) = fst (list_items (snd (run init cs)))"
proof -
  let ?s = "snd (run init cs)"
  have k: "keyed_by_id ?s" by (rule keyed_run) (rule keyed_init)
  have d: "distinct (dict_keys ?s)" by (rule distinct_run) (rule keyed_init)
  have ids: "map id' (fst (list_items ?s)) = dict_keys ?s"
    using k by (simp add: list_items_def keyed_values_ids)
  have o: "map id' (fst (list_items ?s)) = insertion_order [] (fst (run init cs))"
    using order_run [of init cs] ids by (simp add: init_def dict_keys_def)
  have dd: "distinct (map id' (fst (list_items ?s)))"
    using d ids by simp
  have m: "\<forall>i. i \<in> set (fst (list_items ?s)) \<longleftrightarrow> dict_get ?s (id' i) = Some i"
  proof (intro allI iffI)
    fix i assume "i \<in> set (fst (list_items ?s))"
    then obtain k' where "(k', i) \<in> set ?s"
      by (auto simp: list_items_def dict_values_def)
    moreover from this k have "id' i = k'" by (auto simp: keyed_by_id_def)
    ultimately show "dict_get ?s (id' i) = Some i" using d by (simp add: mem_dict_get)
  next
    fix i assume "dict_get ?s (id' i) = Some i"
    then have "(id' i, i) \<in> set ?s" by (rule dict_get_mem)
    then show "i \<in> set (fst (list_items ?s))"
      by (force simp: list_items_def dict_values_def)
  qed
  have u: "\<forall>u. fst (update_item ?s k p t) = Inr (Some u) \<longrightarrow>
      fst (list_items (snd (update_item ?s k p t)))
        = map (\<lambda>i. if id' i = k then u else i) (fst (list_items ?s))"
  proof (cases rule: update_item_cases [of ?s k p t])
    case absent
    then show ?thesis by simp
  next
    case invalid
    then show ?thesis by simp
  next
    case (stored e)
    then have "dict_contains ?s k" by (simp add: dict_contains_get)
    with stored k d show ?thesis
      by (simp add: list_items_def keyed_values_set)
  qed
  have uk: "map id' (fst (list_items (snd (update_item ?s k p t)))) = map id' (fst (list_items ?s))"
  proof -
    have "keyed_by_id (snd (exec_op ?s (UpdateItem k p t)))" using k by (rule keyed_exec_op)
    then have k': "keyed_by_id (snd (update_item ?s k p t))"
      by (simp add: exec_op.simps split_beta)
    have "dict_keys (snd (update_item ?s k p t)) = dict_keys ?s"
      by (cases rule: update_item_cases [of ?s k p t]) (simp_all add: dict_keys_set dict_contains_get)
    with k k' show ?thesis by (simp add: list_items_def keyed_values_ids)
  qed
  have l: "fst (list_items (snd (list_items ?s))) = fst (list_items ?s)"
    by (simp add: list_items_def)
  from o dd m uk u l show ?thesis by blast
qed


theorem C6_list_in_insertion_order_witness:
  "map id' (fst (list_items (snd (run init
      [CreateItem test_item ''a'' 0, CreateItem test_item ''b'' 1])))) = [''a'', ''b''] \<and>
   insertion_order [] (fst (run init
      [CreateItem test_item ''a'' 0, CreateItem test_item ''b'' 1])) = [''a'', ''b''] \<and>
   fst (update_item (snd (run init [CreateItem test_item ''a'' 0, CreateItem test_item ''b'' 1]))
          ''a'' test_item 2) = Inr (Some (new_item test_item ''a'' 0 (Some 2))) \<and>
   fst (list_items (snd (update_item
          (snd (run init [CreateItem test_item ''a'' 0, CreateItem test_item ''b'' 1]))
          ''a'' test_item 2)))
     = [new_item test_item ''a'' 0 (Some 2), new_item test_item ''b'' 1 None]"
proof -
  have u: "update_item [(''a'', new_item test_item ''a'' 0 None), (''b'', new_item test_item ''b'' 1 None)]
             ''a'' test_item 2
     = (Inr (Some (new_item test_item ''a'' 0 (Some 2))),
        [(''a'', new_item test_item ''a'' 0 (Some 2)), (''b'', new_item test_item ''b'' 1 None)])"
    by (simp add: update_item_valid [where e = "new_item test_item ''a'' 0 None"]
          valid_test_item new_item_def)
  from C6_list_in_insertion_order
         [of "[CreateItem test_item ''a'' 0, CreateItem test_item ''b'' 1]" "''a''" test_item 2] u
  show ?thesis
    by (simp add: run_init_two list_items_def dict_values_def)
qed

subsection \<open>Counting creations and deletions\<close>

lemma count_Cons:
  "count_created (e # tr) = (if created e then 1 else 0) + count_created tr"
  "count_deleted (e # tr) = (if deleted e then 1 else 0) + count_deleted tr"
  by (simp_all add: count_created_def count_deleted_def)

lemma count_Nil: "count_created [] = 0" "count_deleted [] = 0"
  by (simp_all add: count_created_def count_deleted_def)

lemma fresh_ids_Cons:
  "fresh_ids s (c # cs) =
     ((\<forall>p u t. c = CreateItem p u t \<longrightarrow> \<not> dict_contains s u) \<and>
      fresh_ids (snd (exec_op s c)) cs)"
  by (cases c) simp_all

lemma length_exec_op:
  assumes "distinct (dict_keys s)" and "\<forall>p u t. c = CreateItem p u t \<longrightarrow> \<not> dict_contains s u"
  shows "int (length (snd (exec_op s c)))
       = int (length s) + (if created (c, fst (exec_op s c)) then 1 else 0)
           - (if deleted (c, fst (exec_op s c)) then 1 else 0)"
proof (cases c)
  case ListItems
  then show ?thesis by (simp add: exec_op_list)
next
  case (GetItem k)
  then show ?thesis by (simp add: exec_op_get)
next
  case (CreateItem p u t)
  with assms(2) have "\<not> dict_contains s u" by simp
  with CreateItem show ?thesis
    by (cases "valid_ItemCreate p")
       (simp_all add: exec_op_create_valid exec_op_create_invalid length_dict_set)
next
  case (UpdateItem k p t)
  show ?thesis
  proof (cases rule: exec_op_update_cases [of s k p t])
    case absent
    then show ?thesis using UpdateItem by simp
  next
    case invalid
    then show ?thesis using UpdateItem by simp
  next
    case (stored e)
    then show ?thesis using UpdateItem by (simp add: length_dict_set dict_contains_get)
  qed
next
  case (DeleteItem k)
  show ?thesis
  proof (cases "dict_contains s k")
    case True
    with assms(1) have "Suc (length (dict_del s k)) = length s" by (simp add: length_dict_del)
    then have "int (length (dict_del s k)) = int (length s) - 1" by linarith
    with True DeleteItem show ?thesis by (simp add: exec_op_delete)
  next
    case False
    with DeleteItem show ?thesis by (simp add: exec_op_delete dict_del_absent)
  qed
qed

lemma length_run:
  "distinct (dict_keys s) \<Longrightarrow> fresh_ids s cs \<Longrightarrow>
     int (length (snd (run s cs)))
       = int (length s) + int (count_created (fst (run s cs))) - int (count_deleted (fst (run s cs)))"
proof (induction cs arbitrary: s)
  case Nil
  then show ?case by (simp add: run_Nil count_Nil)
next
  case (Cons c cs)
  let ?s = "snd (exec_op s c)"
  from Cons.prems(2) have f: "\<forall>p u t. c = CreateItem p u t \<longrightarrow> \<not> dict_contains s u"
    and f': "fresh_ids ?s cs"
    by (simp_all add: fresh_ids_Cons)
  have d: "distinct (dict_keys ?s)" using Cons.prems(1) by (rule distinct_exec_op)
  have "int (length (snd (run ?s cs)))
       = int (length ?s) + int (count_created (fst (run ?s cs))) - int (count_deleted (fst (run ?s cs)))"
    using d f' by (rule Cons.IH)
  moreover have "int (length ?s)
       = int (length s) + (if created (c, fst (exec_op s c)) then 1 else 0)
           - (if deleted (c, fst (exec_op s c)) then 1 else 0)"
    using Cons.prems(1) f by (rule length_exec_op)
  ultimately show ?case by (simp add: run_Cons count_Cons)
qed

text \<open>
  C4. In a run from the empty store in which no \<open>create_item\<close> call generates
  an identifier that is a key of the store at that moment, the length of the list that
  \<open>list_items\<close> returns, and the \<open>total\<close> that \<open>GET /items\<close> reports, is the number
  of \<open>create_item\<close> calls that returned an item minus the number of \<open>delete_item\<close>
  calls that returned true.
\<close>

theorem C4_list_count:
  assumes "fresh_ids init cs"
  shows "int (length (fst (list_items (snd (run init cs)))))
           = int (count_created (fst (run init cs))) - int (count_deleted (fst (run init cs))) \<and>
         total (body (fst (routes_list_items (snd (run init cs)))))
           = int (count_created (fst (run init cs))) - int (count_deleted (fst (run init cs)))"
proof -
  have "int (length (snd (run init cs)))
       = int (length init) + int (count_created (fst (run init cs)))
           - int (count_deleted (fst (run init cs)))"
    using keyed_init(2) assms by (rule length_run)
  then show ?thesis
    by (simp add: list_items_def routes_list_items_def dict_values_def init_def)
qed

lemma run_collision:
  "run init [CreateItem test_item ''a'' 0, CreateItem test_item ''a'' 1] =
     ([(CreateItem test_item ''a'' 0, Created (Inr (new_item test_item ''a'' 0 None))),
       (CreateItem test_item ''a'' 1, Created (Inr (new_item test_item ''a'' 1 None)))],
      [(''a'', new_item test_item ''a'' 1 None)])"
  by (simp add: run_Cons run_Nil exec_op_create_valid valid_test_item init_def)

text \<open>
  C4 without the condition on the identifiers fails when an identifier is generated twice:
  the second \<open>create_item\<close> replaces the entry of the first, so two creations and no
  deletion leave one item.
\<close>

theorem C4_list_count_counterexample:
  "int (length (fst (list_items (snd (run init
       [CreateItem test_item ''a'' 0, CreateItem test_item ''a'' 1])))))
     \<noteq> int (count_created (fst (run init
       [CreateItem test_item ''a'' 0, CreateItem test_item ''a'' 1])))
       - int (count_deleted (fst (run init
       [CreateItem test_item ''a'' 0, CreateItem test_item ''a'' 1])))"
  by (simp add: run_collision list_items_def dict_values_def count_created_def count_deleted_def)

lemma run_create_delete:
  "run init [CreateItem test_item ''a'' 0, CreateItem test_item ''b'' 1, DeleteItem ''a''] =
     ([(CreateItem test_item ''a'' 0, Created (Inr (new_item test_item ''a'' 0 None))),
       (CreateItem test_item ''b'' 1, Created (Inr (new_item test_item ''b'' 1 None))),
       (DeleteItem ''a'', Deleted True)],
      [(''b'', new_item test_item ''b'' 1 None)])"
  by (simp add: run_Cons run_Nil exec_op_create_valid exec_op_delete valid_test_item init_def)

theorem C4_list_count_witness:
  "fresh_ids init [CreateItem test_item ''a'' 0, CreateItem test_item ''b'' 1, DeleteItem ''a''] \<and>
   count_created (fst (run init
     [CreateItem test_item ''a'' 0, CreateItem test_item ''b'' 1, DeleteItem ''a''])) = 2 \<and>
   count_deleted (fst (run init
     [CreateItem test_item ''a'' 0, CreateItem test_item ''b'' 1, DeleteItem ''a''])) = 1 \<and>
   total (body (fst (routes_list_items (snd (run init
     [CreateItem test_item ''a'' 0, CreateItem test_item ''b'' 1, DeleteItem ''a''])))))  = 1"
proof -
  have f: "fresh_ids init [CreateItem test_item ''a'' 0, CreateItem test_item ''b'' 1, DeleteItem ''a'']"
    by (simp add: fresh_ids_Cons exec_op_create_valid exec_op_delete valid_test_item init_def)
  from C4_list_count [OF f] f show ?thesis
    by (simp add: run_create_delete count_created_def count_deleted_def)
qed


subsection \<open>Timestamps and the clock\<close>

lemma clock_readings_Cons:
  "set (clock_readings (c # cs)) =
     {t. (\<exists>p u. c = CreateItem p u t) \<or> (\<exists>k p. c = UpdateItem k p t)} \<union> set (clock_readings cs)"
  by (cases c) auto

lemma stamps_dict_set:
  assumes "stamps_le s b" "created_at i \<le> b" "\<forall>t. updated_at i = Some t \<longrightarrow> t \<le> b"
  shows "stamps_le (dict_set s k i) b"
  using set_dict_set [of s k i] assms unfolding stamps_le_def by blast

lemma stamps_dict_del: "stamps_le s b \<Longrightarrow> stamps_le (dict_del s k) b"
  using set_dict_del [of s k] unfolding stamps_le_def by blast

lemma stamps_exec_op:
  assumes "stamps_le s b" and "\<forall>t \<in> set (clock_readings [c]). t \<le> b"
  shows "stamps_le (snd (exec_op s c)) b"
proof (cases c)
  case ListItems
  then show ?thesis using assms by (simp add: exec_op_list)
next
  case (GetItem k)
  then show ?thesis using assms by (simp add: exec_op_get)
next
  case (CreateItem p u t)
  with assms(2) have "t \<le> b" by simp
  with assms(1) CreateItem show ?thesis
    by (cases "valid_ItemCreate p")
       (simp_all add: exec_op_create_valid exec_op_create_invalid stamps_dict_set new_item_def)
next
  case (UpdateItem k p t)
  with assms(2) have t: "t \<le> b" by simp
  show ?thesis
  proof (cases rule: exec_op_update_cases [of s k p t])
    case absent
    then show ?thesis using UpdateItem assms(1) by simp
  next
    case invalid
    then show ?thesis using UpdateItem assms(1) by simp
  next
    case (stored e)
    then have "(k, e) \<in> set s" by (simp add: dict_get_mem)
    with assms(1) have "created_at e \<le> b" by (auto simp: stamps_le_def)
    with stored t UpdateItem assms(1) show ?thesis
      by (simp add: stamps_dict_set new_item_def)
  qed
next
  case (DeleteItem k)
  then show ?thesis using assms(1) by (simp add: exec_op_delete stamps_dict_del)
qed

lemma stamps_run:
  "stamps_le s b \<Longrightarrow> \<forall>t \<in> set (clock_readings cs). t \<le> b \<Longrightarrow> stamps_le (snd (run s cs)) b"
proof (induction cs arbitrary: s)
  case Nil
  then show ?case by (simp add: run_Nil)
next
  case (Cons c cs)
  from Cons.prems(2) have 1: "\<forall>t \<in> set (clock_readings [c]). t \<le> b"
    and 2: "\<forall>t \<in> set (clock_readings cs). t \<le> b"
    by (auto simp: clock_readings_Cons)
  from Cons.prems(1) 1 have "stamps_le (snd (exec_op s c)) b" by (rule stamps_exec_op)
  then have "stamps_le (snd (run (snd (exec_op s c)) cs)) b" using 2 by (rule Cons.IH)
  then show ?case by (simp add: run_Cons)
qed

text \<open>
  C2. When the key is absent, in any store and for any payload, \<open>update_item\<close> returns
  \<open>None\<close> and the store is unchanged. When the key is present in a store reached from
  the empty store and the payload is valid, \<open>update_item\<close> returns and stores an item
  with the identifier and \<open>created_at\<close> of the stored one, the name, description and tags
  of the payload and the clock reading of the call as \<open>updated_at\<close>, whatever the clock
  did before. That reading is at or after the previous \<open>updated_at\<close> provided that it is
  not earlier than the clock values of the calls before; this last clause is the only one
  that depends on the clock.
\<close>

theorem C2_update_item:
  "(\<not> dict_contains s k \<longrightarrow> update_item s k p now = (Inr None, s)) \<and>
   (valid_ItemCreate p \<longrightarrow>
      (\<forall>e. dict_get (snd (run init cs)) k = Some e \<longrightarrow>
         (\<exists>u. update_item (snd (run init cs)) k p now
                = (Inr (Some u), dict_set (snd (run init cs)) k u) \<and>
              dict_get (dict_set (snd (run init cs)) k u) k = Some u \<and>
              id' u = id' e \<and> created_at u = created_at e \<and>
              name u = name p \<and> description u = description p \<and> tags u = tags p \<and>
              updated_at u = Some now \<and>
              ((\<forall>t \<in> set (clock_readings cs). t \<le> now) \<longrightarrow>
                 (\<forall>t. updated_at e = Some t \<longrightarrow> t \<le> now)))))"
proof (intro conjI allI impI)
  show "update_item s k p now = (Inr None, s)" if "\<not> dict_contains s k"
    using that by (rule update_item_absent)
next
  let ?s = "snd (run init cs)"
  fix e assume v: "valid_ItemCreate p" and e: "dict_get ?s k = Some e"
  let ?u = "new_item p k (created_at e) (Some now)"
  have m: "(k, e) \<in> set ?s" using e by (rule dict_get_mem)
  have "keyed_by_id ?s" by (rule keyed_run) (rule keyed_init)
  with m have i: "id' e = k" by (auto simp: keyed_by_id_def)
  have t: "\<forall>t. updated_at e = Some t \<longrightarrow> t \<le> now"
    if c: "\<forall>t \<in> set (clock_readings cs). t \<le> now"
  proof -
    have "stamps_le init now" by (simp add: stamps_le_def init_def)
    then have "stamps_le ?s now" using c by (rule stamps_run)
    with m show ?thesis by (auto simp: stamps_le_def)
  qed
  have "update_item ?s k p now = (Inr (Some ?u), dict_set ?s k ?u)"
    using v e by (rule update_item_valid)
  moreover have "dict_get (dict_set ?s k ?u) k = Some ?u" by (simp add: dict_get_set)
  moreover have "id' ?u = id' e \<and> created_at ?u = created_at e \<and>
                 name ?u = name p \<and> description ?u = description p \<and> tags ?u = tags p \<and>
                 updated_at ?u = Some now"
    using i by (simp add: new_item_def)
  ultimately show "\<exists>u. update_item ?s k p now = (Inr (Some u), dict_set ?s k u) \<and>
                 dict_get (dict_set ?s k u) k = Some u \<and>
                 id' u = id' e \<and> created_at u = created_at e \<and>
                 name u = name p \<and> description u = description p \<and> tags u = tags p \<and>
                 updated_at u = Some now \<and>
                 ((\<forall>t \<in> set (clock_readings cs). t \<le> now) \<longrightarrow>
                    (\<forall>t. updated_at e = Some t \<longrightarrow> t \<le> now))"
    using t by blast
qed

text \<open>
  C2 without the condition on the clock fails when the clock steps back: after an update at
  clock value 20, an update at clock value 15 stores 15, which is less than the
  \<open>updated_at\<close> it replaces.
\<close>

theorem C2_update_item_counterexample:
  "dict_get (snd (run init [CreateItem test_item ''a'' 10, UpdateItem ''a'' test_item 20])) ''a''
     = Some (new_item test_item ''a'' 10 (Some 20)) \<and>
   updated_at (new_item test_item ''a'' 10 (Some 20)) = Some 20 \<and>
   fst (update_item (snd (run init [CreateItem test_item ''a'' 10, UpdateItem ''a'' test_item 20]))
          ''a'' test_item 15)
     = Inr (Some (new_item test_item ''a'' 10 (Some 15))) \<and>
   updated_at (new_item test_item ''a'' 10 (Some 15)) = Some 15 \<and>
   \<not> (20::int) \<le> 15"
  by (simp add: run_create_update
        update_item_valid [where e = "new_item test_item ''a'' 10 (Some 20)"]
        valid_test_item new_item_def)

theorem C2_update_item_witness:
  "valid_ItemCreate test_item \<and>
   clock_readings [CreateItem test_item ''a'' 10, UpdateItem ''a'' test_item 20] = [10, 20] \<and>
   dict_get (snd (run init [CreateItem test_item ''a'' 10, UpdateItem ''a'' test_item 20])) ''a''
     = Some (new_item test_item ''a'' 10 (Some 20)) \<and>
   update_item (snd (run init [CreateItem test_item ''a'' 10, UpdateItem ''a'' test_item 20]))
       ''a'' test_item 30
     = (Inr (Some (new_item test_item ''a'' 10 (Some 30))),
        [(''a'', new_item test_item ''a'' 10 (Some 30))]) \<and>
   updated_at (new_item test_item ''a'' 10 (Some 20)) = Some 20 \<and> (20::int) \<le> 30 \<and>
   \<not> dict_contains [(''a'', new_item test_item ''a'' 10 (Some 20))] ''b'' \<and>
   update_item [(''a'', new_item test_item ''a'' 10 (Some 20))] ''b'' test_item 30
     = (Inr None, [(''a'', new_item test_item ''a'' 10 (Some 20))])"
proof -
  let ?cs = "[CreateItem test_item ''a'' 10, UpdateItem ''a'' test_item 20]"
  have c: "\<forall>t \<in> set (clock_readings ?cs). t \<le> 30" by simp
  have u: "update_item [(''a'', new_item test_item ''a'' 10 (Some 20))] ''a'' test_item 30
     = (Inr (Some (new_item test_item ''a'' 10 (Some 30))),
        [(''a'', new_item test_item ''a'' 10 (Some 30))])"
    by (simp add: update_item_valid [where e = "new_item test_item ''a'' 10 (Some 20)"]
          valid_test_item new_item_def)
  from C2_update_item [where s = "[(''a'', new_item test_item ''a'' 10 (Some 20))]"
         and k = "''b''" and p = test_item and now = 30 and cs = ?cs]
       C2_update_item [where s = init and k = "''a''" and p = test_item and now = 30 and cs = ?cs]
       valid_test_item c u
  show ?thesis
    by (simp add: run_create_update new_item_def)
qed

end
